theory Spec2Isabelle
  imports Main "HOL-Library.Word"
begin

section \<open>Data model of \<open>src/session.ts\<close>\<close>

text \<open>
  An \<open>ArrayBuffer\<close> is a finite sequence of bytes; \<open>byteLength\<close> is its length. JavaScript
  numbers that hold byte counts are modelled as unbounded integers (the counts of the
  program stay far below \<open>2^53\<close>, where the double arithmetic of the source is exact).
\<close>

type_synonym ArrayBuffer = "8 word list"

definition byteLength :: "ArrayBuffer \<Rightarrow> int" where
  "byteLength b = int (length b)"

text \<open>
  Everything the source can throw. \<open>StoreError\<close> is a rejected localforage promise,
  \<open>NetworkError\<close> a rejected \<open>fetch\<close>, \<open>DecodeError\<close> an exception of \<open>pako.inflate\<close>,
  \<open>TypeError\<close> the JavaScript error of reading a property of \<open>null\<close> or destructuring
  \<open>undefined\<close>, \<open>OrtError\<close> a failure inside onnxruntime, and \<open>NotInitialized\<close> the
  \<open>Error("the session is not initialized. Call `init()` method first.")\<close> of the guards.
\<close>

datatype error = NotInitialized | StoreError | NetworkError | DecodeError | TypeError | OrtError

datatype console_entry = Warn string | Error string | ErrorObj error

record SessionParameters =
  numThreads :: int
  executionProviders :: "string list"
  memoryLimitMB :: int
  cacheSizeMB :: int
  wasmRoot :: string
  tokenizersPath :: string

definition SessionParams :: SessionParameters where
  "SessionParams = \<lparr> numThreads = 0, executionProviders = [''wasm''], memoryLimitMB = 0,
     cacheSizeMB = 500,
     wasmRoot = ''https://edge-ai-models.s3.us-east-2.amazonaws.com/onnx-13/'',
     tokenizersPath = ''https://edge-ai-models.s3.us-east-2.amazonaws.com/tokenizers.wasm'' \<rparr>"

text \<open>
  The runnable handle \<open>ort.InferenceSession\<close> is an external object: the program only reads
  its two name lists and calls its \<open>run\<close>, whose failure is the value \<open>None\<close>.
\<close>

typedecl OnnxValue

type_synonym OnnxValueMapType = "(string \<times> OnnxValue) list"

record InferenceSession =
  ort_inputNames :: "string list"
  ort_outputNames :: "string list"
  ort_run :: "OnnxValueMapType \<Rightarrow> OnnxValueMapType option"

record Session =
  ortSession :: "InferenceSession option"
  cacheSize :: int

text \<open>
  The world outside a \<open>Session\<close> object. \<open>params\<close> is the exported, mutable object
  \<open>SessionParams\<close>. \<open>items\<close> is the content of the localforage store, in the order in
  which \<open>localforage.keys()\<close> enumerates it; its keys are pairwise distinct
  (\<open>store_wf\<close>). Every localforage call is one store operation: the \<open>n\<close>-th operation
  rejects when \<open>store_fault n\<close> holds, and \<open>store_ops\<close> counts the operations issued so
  far. The \<open>n\<close>-th network transfer of a path delivers \<open>network n path\<close> (\<open>None\<close>: the
  transfer fails), and \<open>fetches\<close> counts the transfers. \<open>pako_inflate\<close> and \<open>ort_create\<close>
  are the two library calls, \<open>None\<close> when they throw.
\<close>

record world =
  params :: SessionParameters
  items :: "(string \<times> ArrayBuffer) list"
  store_ops :: nat
  store_fault :: "nat \<Rightarrow> bool"
  fetches :: nat
  network :: "nat \<Rightarrow> string \<Rightarrow> ArrayBuffer option"
  pako_inflate :: "ArrayBuffer \<Rightarrow> ArrayBuffer option"
  ort_create :: "string list \<Rightarrow> ArrayBuffer \<Rightarrow> InferenceSession option"
  console :: "console_entry list"

definition store_wf :: "world \<Rightarrow> bool" where
  "store_wf w = distinct (map fst (items w))"

definition total_bytes :: "(string \<times> ArrayBuffer) list \<Rightarrow> int" where
  "total_bytes es = sum_list (map (\<lambda>e. byteLength (snd e)) es)"

text \<open>No store operation issued from now on rejects.\<close>

definition store_quiet :: "world \<Rightarrow> bool" where
  "store_quiet w = (\<forall>n. store_ops w \<le> n \<longrightarrow> \<not> store_fault w n)"

section \<open>The localforage store and the network\<close>

text \<open>
  \<open>map_set\<close> is \<open>Map.prototype.set\<close> and the store's \<open>setItem\<close> on an insertion-ordered
  association list: an existing key keeps its place, a new key goes to the end.
\<close>

fun map_set :: "'k \<Rightarrow> 'v \<Rightarrow> ('k \<times> 'v) list \<Rightarrow> ('k \<times> 'v) list" where
  "map_set k v [] = [(k, v)]"
| "map_set k v ((k', v') # es) = (if k' = k then (k, v) # es else (k', v') # map_set k v es)"

definition tick :: "world \<Rightarrow> world" where
  "tick w = w\<lparr>store_ops := Suc (store_ops w)\<rparr>"

definition getItem :: "string \<Rightarrow> world \<Rightarrow> (error + ArrayBuffer option) \<times> world" where
  "getItem key w =
     (if store_fault w (store_ops w) then (Inl StoreError, tick w)
      else (Inr (map_of (items w) key), tick w))"

definition keys :: "world \<Rightarrow> (error + string list) \<times> world" where
  "keys w =
     (if store_fault w (store_ops w) then (Inl StoreError, tick w)
      else (Inr (map fst (items w)), tick w))"

definition removeItem :: "string \<Rightarrow> world \<Rightarrow> (error + unit) \<times> world" where
  "removeItem key w =
     (if store_fault w (store_ops w) then (Inl StoreError, tick w)
      else (Inr (), tick (w\<lparr>items := filter (\<lambda>e. fst e \<noteq> key) (items w)\<rparr>)))"

definition setItem :: "string \<Rightarrow> ArrayBuffer \<Rightarrow> world \<Rightarrow> (error + unit) \<times> world" where
  "setItem key data w =
     (if store_fault w (store_ops w) then (Inl StoreError, tick w)
      else (Inr (), tick (w\<lparr>items := map_set key data (items w)\<rparr>)))"

definition clearCache :: "world \<Rightarrow> (error + unit) \<times> world" where
  "clearCache w =
     (if store_fault w (store_ops w) then (Inl StoreError, tick w)
      else (Inr (), tick (w\<lparr>items := []\<rparr>)))"

definition fetch :: "string \<Rightarrow> world \<Rightarrow> (error + ArrayBuffer) \<times> world" where
  "fetch path w =
     (case network w (fetches w) path of
        None \<Rightarrow> (Inl NetworkError, w\<lparr>fetches := Suc (fetches w)\<rparr>)
      | Some body \<Rightarrow> (Inr body, w\<lparr>fetches := Suc (fetches w)\<rparr>))"

section \<open>The class \<open>Session\<close>\<close>

text \<open>
  The constructor reads \<open>SessionParams.cacheSizeMB\<close> (taken to be a whole number) and
  multiplies it by \<open>1e6\<close>. Its call of \<open>localforage.config\<close> names the store and passes
  a capacity hint; it does not change the store content.
\<close>

definition Session_new :: "world \<Rightarrow> Session" where
  "Session_new w = \<lparr> ortSession = None, cacheSize = cacheSizeMB (params w) * 1000000 \<rparr>"

text \<open>
  \<open>modelPath.split(".").pop()\<close>: \<open>split\<close> cuts the string at every separator character
  and always yields at least one piece; \<open>pop\<close> returns the last piece, and \<open>undefined\<close>
  (here \<open>None\<close>) on an empty array.
\<close>

fun split :: "char \<Rightarrow> string \<Rightarrow> string list" where
  "split c [] = [[]]"
| "split c (x # xs) =
     (if x = c then [] # split c xs
      else (case split c xs of [] \<Rightarrow> [[x]] | s # ss \<Rightarrow> (x # s) # ss))"

definition pop :: "'a list \<Rightarrow> 'a option" where
  "pop xs = (if xs = [] then None else Some (last xs))"

definition extension :: "string \<Rightarrow> string option" where
  "extension modelPath = pop (split CHR ''.'' modelPath)"

text \<open>
  The \<open>for\<close> loop of \<open>validateCache\<close>: one \<open>getItem\<close> per key; \<open>data.byteLength\<close> on a
  \<open>null\<close> result is a \<open>TypeError\<close>. The accumulators are \<open>cacheSize\<close> and the map
  \<open>cacheItemSizes\<close>.
\<close>

fun sizes_loop ::
  "string list \<Rightarrow> int \<Rightarrow> (string \<times> int) list \<Rightarrow> world \<Rightarrow> (error + int \<times> (string \<times> int) list) \<times> world"
where
  "sizes_loop [] cs m w = (Inr (cs, m), w)"
| "sizes_loop (key # ks) cs m w =
     (case getItem key w of
        (Inl e, w') \<Rightarrow> (Inl e, w')
      | (Inr None, w') \<Rightarrow> (Inl TypeError, w')
      | (Inr (Some data), w') \<Rightarrow>
          sizes_loop ks (cs + byteLength data) (map_set key (byteLength data) m) w')"

text \<open>
  The \<open>while\<close> loop of \<open>validateCache\<close>. Each round takes the first entry of
  \<open>cacheItemSizes\<close>, deletes it from the map, subtracts its size and removes the item from
  the store. On an empty map \<open>entries().next().value\<close> is \<open>undefined\<close> and the destructuring
  throws a \<open>TypeError\<close>.
\<close>

fun evict_loop :: "int \<Rightarrow> (string \<times> int) list \<Rightarrow> int \<Rightarrow> world \<Rightarrow> (error + unit) \<times> world" where
  "evict_loop limit [] newCacheSize w =
     (if newCacheSize > limit then (Inl TypeError, w) else (Inr (), w))"
| "evict_loop limit ((key, size_k) # m) newCacheSize w =
     (if newCacheSize > limit then
        (case removeItem key w of
           (Inl e, w') \<Rightarrow> (Inl e, w')
         | (Inr u, w') \<Rightarrow> evict_loop limit m (newCacheSize - size_k) w')
      else (Inr (), w))"

text \<open>The body of the \<open>try\<close> block of \<open>validateCache\<close>, and \<open>validateCache\<close> with its \<open>catch\<close>.\<close>

definition validateCache_try :: "Session \<Rightarrow> ArrayBuffer \<Rightarrow> world \<Rightarrow> (error + unit) \<times> world" where
  "validateCache_try this modelData w =
     (case keys w of
        (Inl e, w1) \<Rightarrow> (Inl e, w1)
      | (Inr cacheKeys, w1) \<Rightarrow>
          (case sizes_loop cacheKeys 0 [] w1 of
             (Inl e, w2) \<Rightarrow> (Inl e, w2)
           | (Inr (cs, m), w2) \<Rightarrow>
               evict_loop (cacheSize this) m (cs + byteLength modelData) w2))"

definition validateCache :: "Session \<Rightarrow> ArrayBuffer \<Rightarrow> world \<Rightarrow> world" where
  "validateCache this modelData w =
     (case validateCache_try this modelData w of
        (Inr u, w') \<Rightarrow> w'
      | (Inl err, w') \<Rightarrow>
          w'\<lparr>console := console w' @ [Error ''unable to validate the cache'', ErrorObj err]\<rparr>)"

text \<open>
  \<open>fetchData\<close>. The payload is inflated when the extension is \<open>gz\<close>. The promise of
  \<open>localforage.setItem\<close> is not awaited: its outcome is dropped, and the model runs it
  before \<open>fetchData\<close> returns.
\<close>

definition decode :: "string \<Rightarrow> world \<Rightarrow> ArrayBuffer \<Rightarrow> error + ArrayBuffer" where
  "decode modelPath w body =
     (if extension modelPath = Some ''gz'' then
        (case pako_inflate w body of None \<Rightarrow> Inl DecodeError | Some d \<Rightarrow> Inr d)
      else Inr body)"

definition fetchData :: "Session \<Rightarrow> string \<Rightarrow> world \<Rightarrow> (error + ArrayBuffer) \<times> world" where
  "fetchData this modelPath w =
     (case fetch modelPath w of
        (Inl e, w1) \<Rightarrow> (Inl e, w1)
      | (Inr body, w1) \<Rightarrow>
          (case decode modelPath w1 body of
             Inl e \<Rightarrow> (Inl e, w1)
           | Inr modelData \<Rightarrow>
               if byteLength modelData > cacheSize this then
                 (Inr modelData,
                  w1\<lparr>console := console w1 @ [Warn ''the model is too large to be cached'']\<rparr>)
               else
                 (Inr modelData,
                  snd (setItem modelPath modelData (validateCache this modelData w1)))))"

text \<open>
  \<open>resolve\<close> is the \<open>try\<close>/\<open>catch\<close> statement of \<open>init\<close> (lines 47 to 59), which computes
  \<open>modelData\<close>. An exception of the \<open>try\<close> block, from \<open>getItem\<close> or from the \<open>fetchData\<close>
  of the miss branch, is logged and followed by the \<open>fetchData\<close> of the \<open>catch\<close> block.
  \<open>init\<close> then creates the runnable handle and assigns it to \<open>ortSession\<close> as its last
  step; the two assignments to \<open>ort.env.wasm\<close> at its start configure the runtime and are
  not part of the model.
\<close>

definition catch_fetch :: "Session \<Rightarrow> string \<Rightarrow> error \<Rightarrow> world \<Rightarrow> (error + ArrayBuffer) \<times> world" where
  "catch_fetch this modelPath err w =
     fetchData this modelPath
       (w\<lparr>console := console w @ [Error ''unable to load the data from cache'', ErrorObj err]\<rparr>)"

definition resolve :: "Session \<Rightarrow> string \<Rightarrow> world \<Rightarrow> (error + ArrayBuffer) \<times> world" where
  "resolve this modelPath w =
     (case getItem modelPath w of
        (Inl err, w1) \<Rightarrow> catch_fetch this modelPath err w1
      | (Inr (Some cachedData), w1) \<Rightarrow> (Inr cachedData, w1)
      | (Inr None, w1) \<Rightarrow>
          (case fetchData this modelPath w1 of
             (Inl err, w2) \<Rightarrow> catch_fetch this modelPath err w2
           | (Inr modelData, w2) \<Rightarrow> (Inr modelData, w2)))"

definition init :: "Session \<Rightarrow> string \<Rightarrow> world \<Rightarrow> (error + unit) \<times> Session \<times> world" where
  "init this modelPath w =
     (case resolve this modelPath w of
        (Inl e, w1) \<Rightarrow> (Inl e, this, w1)
      | (Inr modelData, w1) \<Rightarrow>
          (case ort_create w1 (executionProviders (params w1)) modelData of
             None \<Rightarrow> (Inl OrtError, this, w1)
           | Some session \<Rightarrow> (Inr (), this\<lparr>ortSession := Some session\<rparr>, w1)))"

definition run :: "Session \<Rightarrow> OnnxValueMapType \<Rightarrow> error + OnnxValueMapType" where
  "run this input =
     (case ortSession this of
        None \<Rightarrow> Inl NotInitialized
      | Some s \<Rightarrow> (case ort_run s input of None \<Rightarrow> Inl OrtError | Some out \<Rightarrow> Inr out))"

definition inputNames :: "Session \<Rightarrow> error + string list" where
  "inputNames this =
     (case ortSession this of None \<Rightarrow> Inl NotInitialized | Some s \<Rightarrow> Inr (ort_inputNames s))"

definition outputNames :: "Session \<Rightarrow> error + string list" where
  "outputNames this =
     (case ortSession this of None \<Rightarrow> Inl NotInitialized | Some s \<Rightarrow> Inr (ort_outputNames s))"

section \<open>Concrete sessions and worlds\<close>

text \<open>
  \<open>world0\<close>: a budget of 10 MB (\<open>cacheSizeMB = 10\<close>), an empty store that never rejects,
  a network that fails for the path \<open>nowhere\<close>, delivers exactly 10 MB for \<open>full.onnx\<close>,
  one byte more for \<open>huge.onnx\<close> and 4 MB for every other path, and a runtime that accepts
  every non-empty model. \<open>world_ab\<close> holds two artifacts of 4 MB; in \<open>world_keys_fail\<close>
  and \<open>world_get_fail\<close> the next store operation rejects.
\<close>

definition handle0 :: InferenceSession where
  "handle0 = \<lparr> ort_inputNames = [''input''], ort_outputNames = [''output''],
     ort_run = (\<lambda>i. Some i) \<rparr>"

definition world0 :: world where
  "world0 = \<lparr> params = SessionParams\<lparr>cacheSizeMB := 10\<rparr>, items = [], store_ops = 0,
     store_fault = (\<lambda>n. False), fetches = 0,
     network = (\<lambda>n p. if p = ''nowhere'' then None
                       else if p = ''full.onnx'' then Some (replicate 10000000 0)
                       else if p = ''huge.onnx'' then Some (replicate 10000001 0)
                       else Some (replicate 4000000 0)),
     pako_inflate = (\<lambda>b. if b = [] then None else Some (b @ b)),
     ort_create = (\<lambda>eps b. if b = [] then None else Some handle0), console = [] \<rparr>"

definition world_ab :: world where
  "world_ab = world0\<lparr>items := [(''a.onnx'', replicate 4000000 0), (''b.onnx'', replicate 4000000 0)]\<rparr>"

definition world_keys_fail :: world where
  "world_keys_fail = world_ab\<lparr>store_fault := (\<lambda>n. n = 0)\<rparr>"

definition world_get_fail :: world where
  "world_get_fail = world0\<lparr>store_fault := (\<lambda>n. n = 0)\<rparr>"

lemmas model_defs =
  init_def resolve_def catch_fetch_def getItem_def fetchData_def fetch_def decode_def
  extension_def pop_def byteLength_def validateCache_def validateCache_try_def keys_def
  removeItem_def setItem_def tick_def Session_new_def SessionParams_def
  world0_def world_ab_def world_keys_fail_def world_get_fail_def

section \<open>Facts about the store operations\<close>

lemma tick_fields [simp]:
  "items (tick w) = items w" "store_ops (tick w) = Suc (store_ops w)"
  "store_fault (tick w) = store_fault w" "fetches (tick w) = fetches w"
  "console (tick w) = console w" "network (tick w) = network w"
  "pako_inflate (tick w) = pako_inflate w" "ort_create (tick w) = ort_create w"
  "params (tick w) = params w"
  by (simp_all add: tick_def)

lemma store_quiet_tick: "store_quiet w \<Longrightarrow> store_quiet (tick w)"
  by (simp add: store_quiet_def)

lemma store_quiet_now: "store_quiet w \<Longrightarrow> \<not> store_fault w (store_ops w)"
  by (simp add: store_quiet_def)

lemma total_bytes_simps [simp]:
  "total_bytes [] = 0" "total_bytes (e # es) = byteLength (snd e) + total_bytes es"
  by (simp_all add: total_bytes_def)

lemma byteLength_nonneg: "0 \<le> byteLength b"
  by (simp add: byteLength_def)

lemma total_bytes_nonneg: "0 \<le> total_bytes es"
  by (induction es) (simp_all add: byteLength_nonneg)

lemma map_set_fresh: "k \<notin> fst ` set m \<Longrightarrow> map_set k v m = m @ [(k, v)]"
  by (induction m) auto

lemma map_of_map_set: "map_of (map_set k v es) k = Some v"
  by (induction es) auto

lemma total_bytes_map_set: "total_bytes (map_set k d es) \<le> total_bytes es + byteLength d"
  using byteLength_nonneg by (induction es) (auto simp: add.commute add_increasing)

lemma map_fst_map_set:
  "map fst (map_set k d es) = (if k \<in> set (map fst es) then map fst es else map fst es @ [k])"
  by (induction es) (auto simp: image_iff, force+)

lemma distinct_map_set: "distinct (map fst es) \<Longrightarrow> distinct (map fst (map_set k d es))"
  by (simp add: map_fst_map_set)

lemma map_of_total_bytes: "map_of es k = Some d \<Longrightarrow> byteLength d \<le> total_bytes es"
proof (induction es)
  case Nil then show ?case by simp
next
  case (Cons e es)
  then show ?case
    using byteLength_nonneg[of "snd e"] total_bytes_nonneg[of es]
    by (cases e) (auto split: if_splits)
qed

lemma total_bytes_append [simp]: "total_bytes (xs @ ys) = total_bytes xs + total_bytes ys"
  by (simp add: total_bytes_def)

lemma keys_cases:
  "keys w = (if store_fault w (store_ops w) then (Inl StoreError, tick w)
             else (Inr (map fst (items w)), tick w))"
  by (simp add: keys_def)

lemma map_of_distinct_entry:
  "distinct (map fst es) \<Longrightarrow> \<forall>e\<in>set es. map_of es (fst e) = Some (snd e)"
  by (induction es) (auto simp: rev_image_eqI)

lemma removeItem_head:
  "\<not> store_fault w (store_ops w) \<Longrightarrow> items w = e # es \<Longrightarrow> distinct (map fst (e # es)) \<Longrightarrow>
     removeItem (fst e) w = (Inr (), tick (w\<lparr>items := es\<rparr>))"
proof -
  assume nf: "\<not> store_fault w (store_ops w)" and it: "items w = e # es"
    and d: "distinct (map fst (e # es))"
  have "fst e \<notin> fst ` set es" using d by simp
  then have "\<forall>x\<in>set es. fst x \<noteq> fst e" by (metis imageI)
  then have "filter (\<lambda>x. fst x \<noteq> fst e) es = es" by (simp add: filter_id_conv)
  then show ?thesis using nf it by (simp add: removeItem_def)
qed

lemma setItem_fields:
  "fetches (snd (setItem k d w)) = fetches w" "console (snd (setItem k d w)) = console w"
  "store_fault (snd (setItem k d w)) = store_fault w"
  "store_ops (snd (setItem k d w)) = Suc (store_ops w)"
  "items (snd (setItem k d w)) = (if store_fault w (store_ops w) then items w else map_set k d (items w))"
  by (simp_all add: setItem_def)

section \<open>The two loops of \<open>validateCache\<close>\<close>

lemma sizes_loop_frame:
  "sizes_loop ks cs m w = (r, w') \<Longrightarrow>
     items w' = items w \<and> console w' = console w \<and> fetches w' = fetches w
     \<and> store_fault w' = store_fault w \<and> store_ops w \<le> store_ops w'
     \<and> store_ops w' \<le> store_ops w + length ks"
proof (induction ks arbitrary: cs m w)
  case Nil then show ?case by auto
next
  case (Cons k ks)
  show ?case
  proof (cases "getItem k w")
    case (Pair g w1)
    have w1: "w1 = tick w" using Pair by (auto simp: getItem_def split: if_splits)
    show ?thesis
    proof (cases g)
      case (Inl e) then show ?thesis using Cons.prems Pair w1 by auto
    next
      case (Inr opt)
      show ?thesis
      proof (cases opt)
        case None then show ?thesis using Cons.prems Pair w1 Inr by auto
      next
        case (Some data)
        then have "sizes_loop ks (cs + byteLength data) (map_set k (byteLength data) m) w1 = (r, w')"
          using Cons.prems Pair Inr by simp
        from Cons.IH[OF this] show ?thesis using w1 by auto
      qed
    qed
  qed
qed

lemma sizes_loop_value:
  "sizes_loop (map fst es) cs m w = (Inr (c', m'), w') \<Longrightarrow>
   distinct (map fst m @ map fst es) \<Longrightarrow>
   \<forall>e\<in>set es. map_of (items w) (fst e) = Some (snd e) \<Longrightarrow>
     c' = cs + total_bytes es \<and> m' = m @ map (\<lambda>e. (fst e, byteLength (snd e))) es"
proof (induction es arbitrary: cs m w)
  case Nil then show ?case by simp
next
  case (Cons e es)
  have look: "map_of (items w) (fst e) = Some (snd e)" using Cons.prems(3) by simp
  have nf: "\<not> store_fault w (store_ops w)"
    using Cons.prems(1) by (auto simp: getItem_def split: if_splits)
  have g: "getItem (fst e) w = (Inr (Some (snd e)), tick w)"
    using nf look by (simp add: getItem_def)
  have rec: "sizes_loop (map fst es) (cs + byteLength (snd e))
      (map_set (fst e) (byteLength (snd e)) m) (tick w) = (Inr (c', m'), w')"
    using Cons.prems(1) g by simp
  have fresh: "fst e \<notin> fst ` set m" using Cons.prems(2) by auto
  have ms: "map_set (fst e) (byteLength (snd e)) m = m @ [(fst e, byteLength (snd e))]"
    using fresh by (rule map_set_fresh)
  have d: "distinct (map fst (map_set (fst e) (byteLength (snd e)) m) @ map fst es)"
    using Cons.prems(2) ms by auto
  have l: "\<forall>e\<in>set es. map_of (items (tick w)) (fst e) = Some (snd e)"
    using Cons.prems(3) by simp
  from Cons.IH[OF rec d l] show ?case using ms by simp
qed

lemma sizes_loop_quiet:
  "store_quiet w \<Longrightarrow> \<forall>k\<in>set ks. map_of (items w) k \<noteq> None \<Longrightarrow>
     \<exists>c' m'. sizes_loop ks cs m w = (Inr (c', m'), w\<lparr>store_ops := store_ops w + length ks\<rparr>)"
proof (induction ks arbitrary: cs m w)
  case Nil then show ?case by simp
next
  case (Cons k ks)
  obtain data where look: "map_of (items w) k = Some data" using Cons.prems(2) by auto
  have g: "getItem k w = (Inr (Some data), tick w)"
    using store_quiet_now[OF Cons.prems(1)] look by (simp add: getItem_def)
  have q: "store_quiet (tick w)" using Cons.prems(1) by (rule store_quiet_tick)
  have l: "\<forall>k\<in>set ks. map_of (items (tick w)) k \<noteq> None" using Cons.prems(2) by simp
  from Cons.IH[OF q l, of "cs + byteLength data" "map_set k (byteLength data) m"]
  show ?case using g by (simp add: tick_def)
qed

lemma sizes_loop_fault:
  "\<exists>i<length ks. store_fault w (store_ops w + i) \<Longrightarrow> \<exists>e. fst (sizes_loop ks cs m w) = Inl e"
proof (induction ks arbitrary: cs m w)
  case Nil then show ?case by simp
next
  case (Cons k ks)
  show ?case
  proof (cases "store_fault w (store_ops w)")
    case True then show ?thesis by (simp add: getItem_def)
  next
    case False
    from Cons.prems obtain i where i: "i < length (k # ks)" "store_fault w (store_ops w + i)" by blast
    then have "i \<noteq> 0" using False by (cases i) auto
    then obtain i' where i': "i = Suc i'" by (cases i) auto
    have ex: "\<exists>i<length ks. store_fault (tick w) (store_ops (tick w) + i)"
      using i i' by auto
    show ?thesis
    proof (cases "map_of (items w) k")
      case None then show ?thesis using False by (simp add: getItem_def)
    next
      case (Some data)
      from Cons.IH[OF ex, of "cs + byteLength data" "map_set k (byteLength data) m"]
      show ?thesis using False Some by (simp add: getItem_def)
    qed
  qed
qed

lemma evict_loop_frame:
  "evict_loop limit m n w = (r, w') \<Longrightarrow>
     console w' = console w \<and> fetches w' = fetches w \<and> store_fault w' = store_fault w
     \<and> store_ops w \<le> store_ops w' \<and> store_ops w' \<le> store_ops w + length m"
proof (induction m arbitrary: n w)
  case Nil then show ?case by (auto split: if_splits)
next
  case (Cons a m)
  obtain key size_k where a: "a = (key, size_k)" by (cases a)
  show ?case
  proof (cases "limit < n")
    case False then show ?thesis using Cons.prems a by simp
  next
    case True
    show ?thesis
    proof (cases "store_fault w (store_ops w)")
      case True
      then show ?thesis using Cons.prems a \<open>limit < n\<close> by (auto simp: removeItem_def)
    next
      case False
      let ?w1 = "tick (w\<lparr>items := filter (\<lambda>e. fst e \<noteq> key) (items w)\<rparr>)"
      have "evict_loop limit m (n - size_k) ?w1 = (r, w')"
        using Cons.prems a \<open>limit < n\<close> False by (simp add: removeItem_def)
      from Cons.IH[OF this] show ?thesis by auto
    qed
  qed
qed

lemma evict_loop_shape:
  "evict_loop limit (map (\<lambda>e. (fst e, byteLength (snd e))) es) (total_bytes es + inc) w = (r, w') \<Longrightarrow>
   items w = es \<Longrightarrow> distinct (map fst es) \<Longrightarrow>
     \<exists>j\<le>length es. items w' = drop j es
        \<and> (\<forall>i<j. limit < total_bytes (drop i es) + inc)
        \<and> (r = Inr () \<longrightarrow> total_bytes (drop j es) + inc \<le> limit)"
proof (induction es arbitrary: w)
  case Nil
  then show ?case by (auto split: if_splits)
next
  case (Cons e es)
  show ?case
  proof (cases "limit < total_bytes (e # es) + inc")
    case False
    then have "r = Inr ()" "w' = w" using Cons.prems(1) by auto
    then have "items w' = drop 0 (e # es) \<and> (\<forall>i<0::nat. limit < total_bytes (drop i (e # es)) + inc)
        \<and> (r = Inr () \<longrightarrow> total_bytes (drop 0 (e # es)) + inc \<le> limit)"
      using False Cons.prems(2) by simp
    then show ?thesis by blast
  next
    case True
    show ?thesis
    proof (cases "store_fault w (store_ops w)")
      case True
      then have "r = Inl StoreError" "w' = tick w"
        using Cons.prems(1) \<open>limit < total_bytes (e # es) + inc\<close> by (auto simp: removeItem_def)
      then have "items w' = drop 0 (e # es) \<and> (\<forall>i<0::nat. limit < total_bytes (drop i (e # es)) + inc)
        \<and> (r = Inr () \<longrightarrow> total_bytes (drop 0 (e # es)) + inc \<le> limit)"
        using Cons.prems(2) by simp
      then show ?thesis by blast
    next
      case False
      let ?w1 = "tick (w\<lparr>items := es\<rparr>)"
      have rm: "removeItem (fst e) w = (Inr (), ?w1)"
        using False Cons.prems(2,3) by (rule removeItem_head)
      have "total_bytes (e # es) + inc - byteLength (snd e) = total_bytes es + inc" by simp
      then have rec: "evict_loop limit (map (\<lambda>e. (fst e, byteLength (snd e))) es)
          (total_bytes es + inc) ?w1 = (r, w')"
        using Cons.prems(1) True rm by simp
      have it: "items ?w1 = es" by simp
      have d: "distinct (map fst es)" using Cons.prems(3) by simp
      from Cons.IH[OF rec it d] obtain j where j: "j \<le> length es" "items w' = drop j es"
        "\<forall>i<j. limit < total_bytes (drop i es) + inc"
        "r = Inr () \<longrightarrow> total_bytes (drop j es) + inc \<le> limit" by blast
      have "\<forall>i<Suc j. limit < total_bytes (drop i (e # es)) + inc"
      proof (intro allI impI)
        fix i assume "i < Suc j"
        then show "limit < total_bytes (drop i (e # es)) + inc"
          using True j(3) by (cases i) auto
      qed
      then have "Suc j \<le> length (e # es) \<and> items w' = drop (Suc j) (e # es)
        \<and> (\<forall>i<Suc j. limit < total_bytes (drop i (e # es)) + inc)
        \<and> (r = Inr () \<longrightarrow> total_bytes (drop (Suc j) (e # es)) + inc \<le> limit)"
        using j by simp
      then show ?thesis by blast
    qed
  qed
qed

lemma evict_loop_quiet:
  "store_quiet w \<Longrightarrow> n - sum_list (map snd m) \<le> limit \<Longrightarrow> fst (evict_loop limit m n w) = Inr ()"
proof (induction m arbitrary: n w)
  case Nil then show ?case by simp
next
  case (Cons a m)
  obtain key size_k where a: "a = (key, size_k)" by (cases a)
  let ?w1 = "tick (w\<lparr>items := filter (\<lambda>e. fst e \<noteq> key) (items w)\<rparr>)"
  have rm: "removeItem key w = (Inr (), ?w1)"
    using store_quiet_now[OF Cons.prems(1)] by (simp add: removeItem_def)
  have q: "store_quiet ?w1" using Cons.prems(1) by (simp add: store_quiet_def)
  have "n - size_k - sum_list (map snd m) \<le> limit" using Cons.prems(2) a by simp
  from Cons.IH[OF q this] show ?case using a rm by simp
qed

section \<open>\<open>validateCache\<close>\<close>

lemma validateCache_try_spec:
  assumes run: "validateCache_try this d w = (r, w')" and wf: "store_wf w"
  shows "(\<exists>j\<le>length (items w). items w' = drop j (items w)
            \<and> (\<forall>i<j. cacheSize this < total_bytes (drop i (items w)) + byteLength d)
            \<and> (r = Inr () \<longrightarrow> total_bytes (drop j (items w)) + byteLength d \<le> cacheSize this))
         \<and> console w' = console w \<and> fetches w' = fetches w \<and> store_fault w' = store_fault w
         \<and> store_ops w \<le> store_ops w' \<and> store_ops w' \<le> store_ops w + 1 + 2 * length (items w)"
proof -
  let ?es = "items w"
  have d: "distinct (map fst ?es)" using wf by (simp add: store_wf_def)
  have unchanged: "items w' = items w \<Longrightarrow> r \<noteq> Inr () \<Longrightarrow>
       \<exists>j\<le>length ?es. items w' = drop j ?es
            \<and> (\<forall>i<j. cacheSize this < total_bytes (drop i ?es) + byteLength d)
            \<and> (r = Inr () \<longrightarrow> total_bytes (drop j ?es) + byteLength d \<le> cacheSize this)"
    by (rule exI[of _ 0]) simp
  show ?thesis
  proof (cases "store_fault w (store_ops w)")
    case True
    then have "r = Inl StoreError" "w' = tick w"
      using run by (simp_all add: validateCache_try_def keys_cases)
    then show ?thesis using unchanged by simp
  next
    case False
    obtain r1 w2 where sl: "sizes_loop (map fst ?es) 0 [] (tick w) = (r1, w2)"
      by (cases "sizes_loop (map fst ?es) 0 [] (tick w)")
    note fr = sizes_loop_frame[OF sl]
    show ?thesis
    proof (cases r1)
      case (Inl e)
      then have "r = Inl e" "w' = w2"
        using run False sl by (simp_all add: validateCache_try_def keys_cases)
      then show ?thesis using unchanged fr by simp
    next
      case (Inr p)
      obtain cs m where p: "p = (cs, m)" by (cases p)
      have "\<forall>e\<in>set ?es. map_of (items (tick w)) (fst e) = Some (snd e)"
        using map_of_distinct_entry[OF d] by simp
      with sizes_loop_value[of ?es 0 "[]" "tick w" cs m w2] sl Inr p d
      have v: "cs = total_bytes ?es" "m = map (\<lambda>e. (fst e, byteLength (snd e))) ?es"
        by simp_all
      have ev: "evict_loop (cacheSize this) (map (\<lambda>e. (fst e, byteLength (snd e))) ?es)
          (total_bytes ?es + byteLength d) w2 = (r, w')"
        using run False sl Inr p v by (simp add: validateCache_try_def keys_cases)
      have it: "items w2 = ?es" using fr by simp
      note sh = evict_loop_shape[OF ev it d]
      note ef = evict_loop_frame[OF ev]
      show ?thesis using sh ef fr by simp
    qed
  qed
qed

lemma validateCache_try_quiet:
  assumes wf: "store_wf w" and q: "store_quiet w" and fits: "byteLength d \<le> cacheSize this"
  shows "fst (validateCache_try this d w) = Inr ()"
proof -
  let ?es = "items w"
  have d: "distinct (map fst ?es)" using wf by (simp add: store_wf_def)
  have nf: "\<not> store_fault w (store_ops w)" using q by (rule store_quiet_now)
  have q1: "store_quiet (tick w)" using q by (rule store_quiet_tick)
  have "\<forall>k\<in>set (map fst ?es). map_of (items (tick w)) k \<noteq> None"
    using map_of_distinct_entry[OF d] by auto
  from sizes_loop_quiet[OF q1 this, of 0 "[]"] obtain cs m where
    sl: "sizes_loop (map fst ?es) 0 [] (tick w)
           = (Inr (cs, m), tick w\<lparr>store_ops := store_ops (tick w) + length (map fst ?es)\<rparr>)"
    by blast
  let ?w2 = "tick w\<lparr>store_ops := store_ops (tick w) + length (map fst ?es)\<rparr>"
  have "\<forall>e\<in>set ?es. map_of (items (tick w)) (fst e) = Some (snd e)"
    using map_of_distinct_entry[OF d] by simp
  with sizes_loop_value[of ?es 0 "[]" "tick w" cs m ?w2] sl d
  have v: "cs = total_bytes ?es" "m = map (\<lambda>e. (fst e, byteLength (snd e))) ?es"
    by simp_all
  have q2: "store_quiet ?w2" using q by (simp add: store_quiet_def)
  have s: "sum_list (map snd m) = total_bytes ?es"
    unfolding v by (simp add: total_bytes_def comp_def)
  have "cs + byteLength d - sum_list (map snd m) \<le> cacheSize this" using s v fits by simp
  from evict_loop_quiet[OF q2 this]
  show ?thesis using nf sl by (simp add: validateCache_try_def keys_cases)
qed

lemma validateCache_fields:
  "items (validateCache this d w) = items (snd (validateCache_try this d w))"
  "store_ops (validateCache this d w) = store_ops (snd (validateCache_try this d w))"
  "store_fault (validateCache this d w) = store_fault (snd (validateCache_try this d w))"
  "fetches (validateCache this d w) = fetches (snd (validateCache_try this d w))"
  by (simp_all add: validateCache_def split: prod.splits sum.splits)

lemma validateCache_console:
  "console (validateCache this d w) =
     (case fst (validateCache_try this d w) of
        Inr u \<Rightarrow> console (snd (validateCache_try this d w))
      | Inl err \<Rightarrow> console (snd (validateCache_try this d w))
                    @ [Error ''unable to validate the cache'', ErrorObj err])"
  by (simp add: validateCache_def split: prod.splits sum.splits)

lemma validateCache_try_frame:
  assumes run: "validateCache_try this d w = (r, w')"
  shows "console w' = console w \<and> fetches w' = fetches w \<and> store_fault w' = store_fault w
         \<and> store_ops w \<le> store_ops w'"
proof (cases "store_fault w (store_ops w)")
  case True
  then have "w' = tick w" using run by (simp add: validateCache_try_def keys_cases)
  then show ?thesis by simp
next
  case False
  obtain r1 w2 where sl: "sizes_loop (map fst (items w)) 0 [] (tick w) = (r1, w2)"
    by (cases "sizes_loop (map fst (items w)) 0 [] (tick w)")
  note fr = sizes_loop_frame[OF sl]
  show ?thesis
  proof (cases r1)
    case (Inl e)
    then have "w' = w2" using run False sl by (simp add: validateCache_try_def keys_cases)
    then show ?thesis using fr by simp
  next
    case (Inr p)
    obtain cs m where p: "p = (cs, m)" by (cases p)
    have "evict_loop (cacheSize this) m (cs + byteLength d) w2 = (r, w')"
      using run False sl Inr p by (simp add: validateCache_try_def keys_cases)
    from evict_loop_frame[OF this] show ?thesis using fr by simp
  qed
qed

lemma validateCache_frame:
  "fetches (validateCache this d w) = fetches w \<and> store_fault (validateCache this d w) = store_fault w
   \<and> store_ops w \<le> store_ops (validateCache this d w)
   \<and> (\<exists>rest. console (validateCache this d w) = console w @ rest)"
proof -
  obtain r w' where t: "validateCache_try this d w = (r, w')" by (cases "validateCache_try this d w")
  note f = validateCache_try_frame[OF t]
  have "\<exists>rest. console (validateCache this d w) = console w @ rest"
    using f t by (cases r) (simp_all add: validateCache_console)
  then show ?thesis using f t by (simp add: validateCache_fields)
qed

lemma validateCache_quiet:
  assumes wf: "store_wf w" and q: "store_quiet w" and fits: "byteLength d \<le> cacheSize this"
  shows "total_bytes (items (validateCache this d w)) + byteLength d \<le> cacheSize this
         \<and> store_wf (validateCache this d w) \<and> store_quiet (validateCache this d w)
         \<and> console (validateCache this d w) = console w"
proof -
  obtain r w' where t: "validateCache_try this d w = (r, w')" by (cases "validateCache_try this d w")
  have r: "r = Inr ()" using validateCache_try_quiet[OF wf q fits] t by simp
  from validateCache_try_spec[OF t wf] r obtain j where
    j: "items w' = drop j (items w)" "total_bytes (drop j (items w)) + byteLength d \<le> cacheSize this"
    and fr: "console w' = console w" "store_fault w' = store_fault w" "store_ops w \<le> store_ops w'"
    by blast
  have v: "validateCache this d w = w'" using t r by (simp add: validateCache_def)
  have "distinct (map fst (drop j (items w)))"
    using wf by (simp add: store_wf_def drop_map[symmetric] distinct_drop)
  then have wf': "store_wf w'" using j(1) by (simp add: store_wf_def)
  have q': "store_quiet w'" using q fr by (simp add: store_quiet_def)
  show ?thesis using v j fr wf' q' by simp
qed

lemma validateCache_try_read_error:
  assumes "\<exists>i\<le>length (items w). store_fault w (store_ops w + i)"
  shows "\<exists>e. fst (validateCache_try this d w) = Inl e
          \<and> items (snd (validateCache_try this d w)) = items w
          \<and> console (snd (validateCache_try this d w)) = console w"
proof (cases "store_fault w (store_ops w)")
  case True
  then show ?thesis by (simp add: validateCache_try_def keys_cases)
next
  case False
  from assms obtain i where i: "i \<le> length (items w)" "store_fault w (store_ops w + i)" by blast
  then have "i \<noteq> 0" using False by (cases i) auto
  then obtain i' where i': "i = Suc i'" by (cases i) auto
  have "i' < length (map fst (items w)) \<and> store_fault (tick w) (store_ops (tick w) + i')"
    using i i' by simp
  then have "\<exists>i<length (map fst (items w)). store_fault (tick w) (store_ops (tick w) + i)"
    by blast
  from sizes_loop_fault[OF this, of 0 "[]"] obtain e where
    e: "fst (sizes_loop (map fst (items w)) 0 [] (tick w)) = Inl e" by blast
  obtain w2 where sl: "sizes_loop (map fst (items w)) 0 [] (tick w) = (Inl e, w2)"
    using e by (cases "sizes_loop (map fst (items w)) 0 [] (tick w)") auto
  note fr = sizes_loop_frame[OF sl]
  have "validateCache_try this d w = (Inl e, w2)"
    using False sl by (simp add: validateCache_try_def keys_cases)
  then show ?thesis using fr by simp
qed

text \<open>\<open>validateCache\<close> neither reads nor writes the count of network transfers.\<close>

lemma getItem_fetches:
  "getItem k (w\<lparr>fetches := n\<rparr>) = apsnd (\<lambda>u. u\<lparr>fetches := n\<rparr>) (getItem k w)"
  by (simp add: getItem_def tick_def)

lemma removeItem_fetches:
  "removeItem k (w\<lparr>fetches := n\<rparr>) = apsnd (\<lambda>u. u\<lparr>fetches := n\<rparr>) (removeItem k w)"
  by (simp add: removeItem_def tick_def)

lemma sizes_loop_fetches:
  "sizes_loop ks cs m (w\<lparr>fetches := n\<rparr>) = apsnd (\<lambda>u. u\<lparr>fetches := n\<rparr>) (sizes_loop ks cs m w)"
proof (induction ks arbitrary: cs m w)
  case Nil show ?case by simp
next
  case (Cons k ks)
  show ?case
    by (cases "getItem k w") (auto simp: getItem_fetches Cons.IH split: sum.splits option.splits)
qed

lemma evict_loop_fetches:
  "evict_loop limit m c (w\<lparr>fetches := n\<rparr>) = apsnd (\<lambda>u. u\<lparr>fetches := n\<rparr>) (evict_loop limit m c w)"
proof (induction m arbitrary: c w)
  case Nil show ?case by simp
next
  case (Cons a m)
  obtain key size_k where a: "a = (key, size_k)" by (cases a)
  show ?case unfolding a
    by (cases "removeItem key w") (auto simp: removeItem_fetches Cons.IH split: sum.splits)
qed

lemma keys_fetches:
  "keys (w\<lparr>fetches := n\<rparr>) = apsnd (\<lambda>u. u\<lparr>fetches := n\<rparr>) (keys w)"
  by (simp add: keys_def tick_def)

lemma validateCache_try_fetches:
  "validateCache_try this d (w\<lparr>fetches := n\<rparr>)
     = apsnd (\<lambda>u. u\<lparr>fetches := n\<rparr>) (validateCache_try this d w)"
proof (cases "keys w")
  case (Pair r1 w1)
  show ?thesis
  proof (cases r1)
    case (Inl e)
    then show ?thesis using Pair by (simp add: validateCache_try_def keys_fetches)
  next
    case (Inr ks)
    show ?thesis
    proof (cases "sizes_loop ks 0 [] w1")
      case sl: (Pair r2 w2)
      show ?thesis
        using Pair Inr sl
        by (cases r2)
           (auto simp: validateCache_try_def keys_fetches sizes_loop_fetches evict_loop_fetches)
    qed
  qed
qed

lemma validateCache_fetches:
  "validateCache this d (w\<lparr>fetches := n\<rparr>) = (validateCache this d w)\<lparr>fetches := n\<rparr>"
  by (cases "validateCache_try this d w")
     (auto simp: validateCache_def validateCache_try_fetches split: sum.splits)

section \<open>\<open>fetchData\<close>\<close>

lemma decode_fetches [simp]: "decode path (w\<lparr>fetches := n\<rparr>) body = decode path w body"
  by (simp add: decode_def)

lemma decode_not_store_error: "decode path w body \<noteq> Inl StoreError"
  by (simp add: decode_def split: option.splits)

lemma fetchData_result:
  "fst (fetchData this path w) =
     (case network w (fetches w) path of None \<Rightarrow> Inl NetworkError | Some body \<Rightarrow> decode path w body)"
  by (simp add: fetchData_def fetch_def split: option.splits sum.splits)

lemma fetchData_frame:
  "fetches (snd (fetchData this path w)) = Suc (fetches w)
   \<and> store_fault (snd (fetchData this path w)) = store_fault w
   \<and> (\<exists>rest. console (snd (fetchData this path w)) = console w @ rest)"
proof -
  let ?w1 = "w\<lparr>fetches := Suc (fetches w)\<rparr>"
  have vf: "\<And>d. fetches (validateCache this d ?w1) = Suc (fetches w)
      \<and> store_fault (validateCache this d ?w1) = store_fault w
      \<and> (\<exists>rest. console (validateCache this d ?w1) = console w @ rest)"
    using validateCache_frame[of this _ ?w1] by simp
  show ?thesis
    using vf by (auto simp: fetchData_def fetch_def setItem_fields split: option.splits sum.splits)
qed

lemma fetchData_cached:
  assumes wf: "store_wf w" and q: "store_quiet w"
    and net: "network w (fetches w) path = Some body" and dec: "decode path w body = Inr data"
    and fits: "byteLength data \<le> cacheSize this"
  shows "\<exists>w'. fetchData this path w = (Inr data, w')
           \<and> total_bytes (items w') \<le> cacheSize this \<and> map_of (items w') path = Some data
           \<and> store_wf w' \<and> store_quiet w' \<and> console w' = console w"
proof -
  let ?w1 = "w\<lparr>fetches := Suc (fetches w)\<rparr>"
  let ?w2 = "validateCache this data ?w1"
  let ?w3 = "snd (setItem path data ?w2)"
  have wf1: "store_wf ?w1" using wf by (simp add: store_wf_def)
  have q1: "store_quiet ?w1" using q by (simp add: store_quiet_def)
  note v = validateCache_quiet[OF wf1 q1 fits]
  have nf: "\<not> store_fault ?w2 (store_ops ?w2)" using v by (simp add: store_quiet_now)
  have it: "items ?w3 = map_set path data (items ?w2)" using nf by (simp add: setItem_fields)
  have fd: "fetchData this path w = (Inr data, ?w3)"
    using net dec fits by (simp add: fetchData_def fetch_def)
  have tot: "total_bytes (items ?w3) \<le> cacheSize this"
    using total_bytes_map_set[of path data "items ?w2"] v it by simp
  have look: "map_of (items ?w3) path = Some data" using it by (simp add: map_of_map_set)
  have wf3: "store_wf ?w3" using v it by (simp add: store_wf_def distinct_map_set)
  have q3: "store_quiet ?w3" using v by (simp add: store_quiet_def setItem_fields)
  have c3: "console ?w3 = console w" using v by (simp add: setItem_fields)
  show ?thesis using fd tot look wf3 q3 c3 by blast
qed

lemma fetchData_Inr:
  "fetchData this path w = (Inr data, w') \<Longrightarrow>
     \<exists>body. network w (fetches w) path = Some body \<and> decode path w body = Inr data"
  using fetchData_result[of this path w] by (auto split: option.splits)

lemma fetchData_insert:
  assumes "network w (fetches w) path = Some body" and "decode path w body = Inr d"
    and "byteLength d \<le> cacheSize this"
  shows "fetchData this path w =
           (Inr d, snd (setItem path d ((validateCache this d w)\<lparr>fetches := Suc (fetches w)\<rparr>)))"
  using assms by (simp add: fetchData_def fetch_def validateCache_fetches)

section \<open>The file extension\<close>

lemma split_ne: "split c xs \<noteq> []"
  by (induction xs) (auto split: list.splits)

lemma split_no_sep: "c \<notin> set xs \<Longrightarrow> split c xs = [xs]"
  by (induction xs) auto

lemma split_sep_tl: "tl (split c (xs @ c # ys)) \<noteq> []"
  by (induction xs) (auto simp: split_ne split: list.splits)

lemma last_split_append: "last (split c (xs @ c # ys)) = last (split c ys)"
proof (induction xs)
  case Nil
  show ?case by (simp add: split_ne)
next
  case (Cons x xs)
  obtain s ss where sp: "split c (xs @ c # ys) = s # ss"
    using split_ne[of c "xs @ c # ys"] by (cases "split c (xs @ c # ys)") auto
  have ss: "ss \<noteq> []" using split_sep_tl[of c xs ys] sp by simp
  show ?case using Cons sp ss by simp
qed

lemma extension_suffix: "CHR ''.'' \<notin> set ys \<Longrightarrow> extension (xs @ CHR ''.'' # ys) = Some ys"
  by (simp add: extension_def pop_def split_ne last_split_append split_no_sep)

lemma extension_gz_iff:
  "extension p = Some ''gz'' \<longleftrightarrow> p = ''gz'' \<or> (\<exists>q. p = q @ ''.gz'')"
proof (cases "CHR ''.'' \<in> set p")
  case False
  then have "extension p = Some p" by (simp add: extension_def pop_def split_no_sep)
  moreover have "\<not> (\<exists>q. p = q @ ''.gz'')" using False by auto
  ultimately show ?thesis by auto
next
  case True
  then obtain xs ys where p: "p = xs @ CHR ''.'' # ys" and ys: "CHR ''.'' \<notin> set ys"
    by (meson split_list_last)
  have e: "extension p = Some ys" using ys p extension_suffix by simp
  have ne: "p \<noteq> ''gz''" using True by auto
  have "(\<exists>q. p = q @ ''.gz'') \<longleftrightarrow> ys = ''gz''"
  proof
    assume "\<exists>q. p = q @ ''.gz''"
    then obtain q where q: "p = q @ CHR ''.'' # ''gz''" by auto
    have "extension p = Some ''gz''" unfolding q by (rule extension_suffix) simp
    then show "ys = ''gz''" using e by simp
  next
    assume "ys = ''gz''" then show "\<exists>q. p = q @ ''.gz''" using p by auto
  qed
  then show ?thesis using e ne by auto
qed

section \<open>The cache budget\<close>

text \<open>
  Claim C1 (budget invariant). Take any store with pairwise distinct keys, whatever its
  total size, and a call of \<open>fetchData\<close> during which no store operation rejects. If the
  call returns an artifact of at most \<open>cacheSize\<close> bytes (the branch that runs
  \<open>validateCache\<close> and then \<open>setItem\<close>), then afterwards the byte sizes of all stored
  entries sum to at most \<open>cacheSize\<close>, and the artifact is stored under its path. The
  resulting store again has distinct keys and no pending rejection, so the bound holds
  after every insert of a sequence of such inserts.
\<close>

theorem budget_invariant:
  assumes "store_wf w" and "store_quiet w"
    and "fetchData this path w = (Inr data, w')"
    and "byteLength data \<le> cacheSize this"
  shows "total_bytes (items w') \<le> cacheSize this \<and> map_of (items w') path = Some data
         \<and> store_wf w' \<and> store_quiet w'"
proof -
  from fetchData_Inr[OF assms(3)] obtain body where
    b: "network w (fetches w) path = Some body" "decode path w body = Inr data" by blast
  from fetchData_cached[OF assms(1,2) b assms(4)] assms(3) show ?thesis by auto
qed

theorem budget_invariant_witness:
  "store_wf world_ab \<and> store_quiet world_ab
   \<and> fst (fetchData (Session_new world_ab) ''c.onnx'' world_ab) = Inr (replicate 4000000 0)
   \<and> byteLength (replicate 4000000 0) \<le> cacheSize (Session_new world_ab)
   \<and> total_bytes (items world_ab) + byteLength (replicate 4000000 0) > cacheSize (Session_new world_ab)
   \<and> total_bytes (items (snd (fetchData (Session_new world_ab) ''c.onnx'' world_ab)))
        \<le> cacheSize (Session_new world_ab)
   \<and> map_of (items (snd (fetchData (Session_new world_ab) ''c.onnx'' world_ab))) ''c.onnx''
        = Some (replicate 4000000 0)
   \<and> map fst (items (snd (fetchData (Session_new world_ab) ''c.onnx'' world_ab)))
        = [''b.onnx'', ''c.onnx'']"
proof -
  let ?s = "Session_new world_ab"
  have wf: "store_wf world_ab" by (simp add: store_wf_def model_defs)
  have q: "store_quiet world_ab" by (simp add: store_quiet_def model_defs)
  have r: "fst (fetchData ?s ''c.onnx'' world_ab) = Inr (replicate 4000000 0)"
    by (simp add: model_defs)
  then have run: "fetchData ?s ''c.onnx'' world_ab
      = (Inr (replicate 4000000 0), snd (fetchData ?s ''c.onnx'' world_ab))"
    by (metis prod.collapse)
  have fits: "byteLength (replicate 4000000 0) \<le> cacheSize ?s" by (simp add: model_defs)
  have over: "total_bytes (items world_ab) + byteLength (replicate 4000000 0) > cacheSize ?s"
    by (simp add: model_defs)
  have ks: "map fst (items (snd (fetchData ?s ''c.onnx'' world_ab))) = [''b.onnx'', ''c.onnx'']"
    by (simp add: model_defs)
  show ?thesis using budget_invariant[OF wf q run fits] wf q r fits over ks by simp
qed

text \<open>
  Claim C3 (an oversized artifact is never cached). When the decoded payload is strictly
  larger than \<open>cacheSize\<close>, \<open>fetchData\<close> returns it, issues no store operation at all (the
  store keeps every entry it had), and its only other effect besides the network transfer
  is the warning on the console.
\<close>

theorem oversized_not_cached:
  assumes "network w (fetches w) path = Some body" and "decode path w body = Inr data"
    and "cacheSize this < byteLength data"
  shows "fetchData this path w =
           (Inr data, w\<lparr>fetches := Suc (fetches w),
                         console := console w @ [Warn ''the model is too large to be cached'']\<rparr>)
         \<and> items (snd (fetchData this path w)) = items w
         \<and> store_ops (snd (fetchData this path w)) = store_ops w"
  using assms by (simp add: fetchData_def fetch_def)

theorem oversized_not_cached_witness:
  "network world_ab (fetches world_ab) ''huge.onnx'' = Some (replicate 10000001 0)
   \<and> decode ''huge.onnx'' world_ab (replicate 10000001 0) = Inr (replicate 10000001 0)
   \<and> cacheSize (Session_new world_ab) < byteLength (replicate 10000001 0)
   \<and> fst (fetchData (Session_new world_ab) ''huge.onnx'' world_ab) = Inr (replicate 10000001 0)
   \<and> items (snd (fetchData (Session_new world_ab) ''huge.onnx'' world_ab)) = items world_ab
   \<and> store_ops (snd (fetchData (Session_new world_ab) ''huge.onnx'' world_ab)) = store_ops world_ab
   \<and> console (snd (fetchData (Session_new world_ab) ''huge.onnx'' world_ab))
        = [Warn ''the model is too large to be cached'']"
proof -
  let ?s = "Session_new world_ab"
  have n: "network world_ab (fetches world_ab) ''huge.onnx'' = Some (replicate 10000001 0)"
    by (simp add: model_defs)
  have d: "decode ''huge.onnx'' world_ab (replicate 10000001 0) = Inr (replicate 10000001 0)"
    by (simp add: model_defs)
  have big: "cacheSize ?s < byteLength (replicate 10000001 0)" by (simp add: model_defs)
  have c: "console world_ab = []" by (simp add: model_defs)
  show ?thesis using oversized_not_cached[OF n d big] n d big c by simp
qed

text \<open>
  Claim C10 (the guard is a strict comparison). A decoded payload of exactly \<open>cacheSize\<close>
  bytes passes the size guard: when no store operation rejects, \<open>fetchData\<close> returns it,
  stores it under its path without any warning, and the stored entries then sum to exactly
  \<open>cacheSize\<close>, so this one entry uses the whole budget.
\<close>

theorem exact_budget_cached:
  assumes "store_wf w" and "store_quiet w"
    and "network w (fetches w) path = Some body" and "decode path w body = Inr data"
    and "byteLength data = cacheSize this"
  shows "fst (fetchData this path w) = Inr data
         \<and> map_of (items (snd (fetchData this path w))) path = Some data
         \<and> total_bytes (items (snd (fetchData this path w))) = cacheSize this
         \<and> console (snd (fetchData this path w)) = console w"
proof -
  have fits: "byteLength data \<le> cacheSize this" using assms(5) by simp
  from fetchData_cached[OF assms(1,2,3,4) fits] obtain w' where
    w': "fetchData this path w = (Inr data, w')" "total_bytes (items w') \<le> cacheSize this"
        "map_of (items w') path = Some data" "console w' = console w" by blast
  have "cacheSize this \<le> total_bytes (items w')"
    using map_of_total_bytes[OF w'(3)] assms(5) by simp
  then show ?thesis using w' by simp
qed

theorem exact_budget_cached_witness:
  "store_wf world_ab \<and> store_quiet world_ab
   \<and> network world_ab (fetches world_ab) ''full.onnx'' = Some (replicate 10000000 0)
   \<and> decode ''full.onnx'' world_ab (replicate 10000000 0) = Inr (replicate 10000000 0)
   \<and> byteLength (replicate 10000000 0) = cacheSize (Session_new world_ab)
   \<and> fst (fetchData (Session_new world_ab) ''full.onnx'' world_ab) = Inr (replicate 10000000 0)
   \<and> map_of (items (snd (fetchData (Session_new world_ab) ''full.onnx'' world_ab))) ''full.onnx''
        = Some (replicate 10000000 0)
   \<and> total_bytes (items (snd (fetchData (Session_new world_ab) ''full.onnx'' world_ab)))
        = cacheSize (Session_new world_ab)
   \<and> console (snd (fetchData (Session_new world_ab) ''full.onnx'' world_ab)) = console world_ab
   \<and> map fst (items (snd (fetchData (Session_new world_ab) ''full.onnx'' world_ab)))
        = [''full.onnx'']"
proof -
  let ?s = "Session_new world_ab"
  have wf: "store_wf world_ab" by (simp add: store_wf_def model_defs)
  have q: "store_quiet world_ab" by (simp add: store_quiet_def model_defs)
  have n: "network world_ab (fetches world_ab) ''full.onnx'' = Some (replicate 10000000 0)"
    by (simp add: model_defs)
  have d: "decode ''full.onnx'' world_ab (replicate 10000000 0) = Inr (replicate 10000000 0)"
    by (simp add: model_defs)
  have eq: "byteLength (replicate 10000000 0) = cacheSize ?s" by (simp add: model_defs)
  have ks: "map fst (items (snd (fetchData ?s ''full.onnx'' world_ab))) = [''full.onnx'']"
    by (simp add: model_defs)
  show ?thesis using exact_budget_cached[OF wf q n d eq] wf q n d eq ks by simp
qed

text \<open>
  Claim C6 (eviction terminates). \<open>validateCache\<close> is a total function: its two loops
  recurse on the finite list of enumerated keys. On a store with \<open>n\<close> distinct keys it
  issues at most \<open>1 + 2 * n\<close> store operations, the entries it removes are the first \<open>j\<close>
  entries of the enumeration for some \<open>j \<le> n\<close>, and before each removal the projected
  total (the bytes still stored plus the incoming size) exceeded \<open>cacheSize\<close>. In
  particular nothing is removed when the projected total is within \<open>cacheSize\<close> at entry.
\<close>

theorem eviction_terminates:
  assumes "store_wf w"
  shows "(\<exists>j\<le>length (items w). items (validateCache this d w) = drop j (items w)
            \<and> (\<forall>i<j. cacheSize this < total_bytes (drop i (items w)) + byteLength d))
         \<and> store_ops (validateCache this d w) \<le> store_ops w + 1 + 2 * length (items w)
         \<and> (total_bytes (items w) + byteLength d \<le> cacheSize this
              \<longrightarrow> items (validateCache this d w) = items w)"
proof -
  obtain r w' where t: "validateCache_try this d w = (r, w')" by (cases "validateCache_try this d w")
  from validateCache_try_spec[OF t assms] obtain j where
    j: "j \<le> length (items w)" "items w' = drop j (items w)"
       "\<forall>i<j. cacheSize this < total_bytes (drop i (items w)) + byteLength d"
    and ops: "store_ops w' \<le> store_ops w + 1 + 2 * length (items w)" by blast
  have it: "items (validateCache this d w) = drop j (items w)"
    using t j(2) by (simp add: validateCache_fields)
  have "total_bytes (items w) + byteLength d \<le> cacheSize this \<longrightarrow> j = 0"
  proof
    assume le: "total_bytes (items w) + byteLength d \<le> cacheSize this"
    show "j = 0"
    proof (rule ccontr)
      assume "j \<noteq> 0"
      then have "cacheSize this < total_bytes (drop 0 (items w)) + byteLength d" using j(3) by blast
      then show False using le by simp
    qed
  qed
  then have keep: "total_bytes (items w) + byteLength d \<le> cacheSize this
      \<longrightarrow> items (validateCache this d w) = items w" using it by auto
  have o: "store_ops (validateCache this d w) \<le> store_ops w + 1 + 2 * length (items w)"
    using t ops by (simp add: validateCache_fields)
  show ?thesis using j(1,3) it keep o by blast
qed

theorem eviction_terminates_witness:
  "store_wf world_ab
   \<and> (\<exists>j\<le>length (items world_ab).
         items (validateCache (Session_new world_ab) (replicate 4000000 0) world_ab)
           = drop j (items world_ab)
         \<and> (\<forall>i<j. cacheSize (Session_new world_ab)
                     < total_bytes (drop i (items world_ab)) + byteLength (replicate 4000000 0)))
   \<and> items (validateCache (Session_new world_ab) (replicate 4000000 0) world_ab)
        = [(''b.onnx'', replicate 4000000 0)]
   \<and> store_ops (validateCache (Session_new world_ab) (replicate 4000000 0) world_ab)
        \<le> store_ops world_ab + 1 + 2 * length (items world_ab)
   \<and> total_bytes (items world_ab) + byteLength (replicate 2000000 0)
        \<le> cacheSize (Session_new world_ab)
   \<and> items (validateCache (Session_new world_ab) (replicate 2000000 0) world_ab) = items world_ab"
proof -
  let ?s = "Session_new world_ab"
  have wf: "store_wf world_ab" by (simp add: store_wf_def model_defs)
  have ev: "items (validateCache ?s (replicate 4000000 0) world_ab)
        = [(''b.onnx'', replicate 4000000 0)]"
    by (simp add: model_defs)
  have small: "total_bytes (items world_ab) + byteLength (replicate 2000000 0) \<le> cacheSize ?s"
    by (simp add: model_defs)
  note A = eviction_terminates[OF wf, of ?s "replicate 4000000 0"]
  note B = eviction_terminates[OF wf, of ?s "replicate 2000000 0"]
  have keep: "items (validateCache ?s (replicate 2000000 0) world_ab) = items world_ab"
    using B small by blast
  show ?thesis using A wf ev small keep by blast
qed

text \<open>
  Claim C9 (a failing read of the store contents). When \<open>keys\<close> or one of the \<open>getItem\<close>
  calls of the size enumeration rejects (one of the first \<open>1 + n\<close> store operations of
  \<open>validateCache\<close> on a store of \<open>n\<close> entries), \<open>validateCache\<close> logs the error and returns
  with every entry still stored. The insert of \<open>fetchData\<close> goes ahead: unless that
  \<open>setItem\<close> rejects as well, the artifact is stored, and for a new path the stored total
  grows by the full size of the artifact, whatever the budget.
\<close>

theorem enforcer_read_error:
  assumes "\<exists>i\<le>length (items w). store_fault w (store_ops w + i)"
  shows "items (validateCache this d w) = items w
         \<and> (\<exists>e. console (validateCache this d w) =
                  console w @ [Error ''unable to validate the cache'', ErrorObj e])
         \<and> (byteLength d \<le> cacheSize this \<and> network w (fetches w) path = Some body
              \<and> decode path w body = Inr d
              \<and> \<not> store_fault w (store_ops (validateCache this d w))
            \<longrightarrow> fst (fetchData this path w) = Inr d
                \<and> items (snd (fetchData this path w)) = map_set path d (items w)
                \<and> (path \<notin> fst ` set (items w) \<longrightarrow>
                      total_bytes (items (snd (fetchData this path w)))
                        = total_bytes (items w) + byteLength d))"
proof -
  from validateCache_try_read_error[OF assms, of this d] obtain e where
    e: "fst (validateCache_try this d w) = Inl e"
       "items (snd (validateCache_try this d w)) = items w"
       "console (snd (validateCache_try this d w)) = console w" by blast
  have a: "items (validateCache this d w) = items w" using e by (simp add: validateCache_fields)
  have b: "console (validateCache this d w) =
                  console w @ [Error ''unable to validate the cache'', ErrorObj e]"
    using e by (simp add: validateCache_console)
  have c: "byteLength d \<le> cacheSize this \<and> network w (fetches w) path = Some body
              \<and> decode path w body = Inr d
              \<and> \<not> store_fault w (store_ops (validateCache this d w))
            \<longrightarrow> fst (fetchData this path w) = Inr d
                \<and> items (snd (fetchData this path w)) = map_set path d (items w)
                \<and> (path \<notin> fst ` set (items w) \<longrightarrow>
                      total_bytes (items (snd (fetchData this path w)))
                        = total_bytes (items w) + byteLength d)"
  proof (intro impI, elim conjE)
    assume fits: "byteLength d \<le> cacheSize this" and net: "network w (fetches w) path = Some body"
      and dec: "decode path w body = Inr d"
      and nf: "\<not> store_fault w (store_ops (validateCache this d w))"
    have sf: "store_fault (validateCache this d w) = store_fault w"
      using validateCache_frame[of this d w] by simp
    have it: "items (snd (fetchData this path w)) = map_set path d (items w)"
      using fetchData_insert[OF net dec fits] nf sf a by (simp add: setItem_fields)
    have "path \<notin> fst ` set (items w) \<longrightarrow>
            total_bytes (map_set path d (items w)) = total_bytes (items w) + byteLength d"
      by (simp add: map_set_fresh)
    then show "fst (fetchData this path w) = Inr d
                \<and> items (snd (fetchData this path w)) = map_set path d (items w)
                \<and> (path \<notin> fst ` set (items w) \<longrightarrow>
                      total_bytes (items (snd (fetchData this path w)))
                        = total_bytes (items w) + byteLength d)"
      using fetchData_insert[OF net dec fits] it by simp
  qed
  show ?thesis using a b c by blast
qed

theorem enforcer_read_error_witness:
  "(\<exists>i\<le>length (items world_keys_fail).
       store_fault world_keys_fail (store_ops world_keys_fail + i))
   \<and> items (validateCache (Session_new world_keys_fail) (replicate 4000000 0) world_keys_fail)
        = items world_keys_fail
   \<and> console (validateCache (Session_new world_keys_fail) (replicate 4000000 0) world_keys_fail)
        = [Error ''unable to validate the cache'', ErrorObj StoreError]
   \<and> fst (fetchData (Session_new world_keys_fail) ''c.onnx'' world_keys_fail)
        = Inr (replicate 4000000 0)
   \<and> map fst (items (snd (fetchData (Session_new world_keys_fail) ''c.onnx'' world_keys_fail)))
        = [''a.onnx'', ''b.onnx'', ''c.onnx'']
   \<and> total_bytes (items (snd (fetchData (Session_new world_keys_fail) ''c.onnx'' world_keys_fail)))
        = 12000000
   \<and> cacheSize (Session_new world_keys_fail) = 10000000"
proof -
  let ?s = "Session_new world_keys_fail"
  let ?d = "replicate 4000000 (0::8 word)"
  have "0 \<le> length (items world_keys_fail)
      \<and> store_fault world_keys_fail (store_ops world_keys_fail + 0)"
    by (simp add: model_defs)
  then have f: "\<exists>i\<le>length (items world_keys_fail).
       store_fault world_keys_fail (store_ops world_keys_fail + i)" by blast
  have pre: "byteLength ?d \<le> cacheSize ?s
      \<and> network world_keys_fail (fetches world_keys_fail) ''c.onnx'' = Some ?d
      \<and> decode ''c.onnx'' world_keys_fail ?d = Inr ?d
      \<and> \<not> store_fault world_keys_fail (store_ops (validateCache ?s ?d world_keys_fail))"
    by (simp add: model_defs)
  have fresh: "''c.onnx'' \<notin> fst ` set (items world_keys_fail)" by (simp add: model_defs)
  have c: "console (validateCache ?s ?d world_keys_fail)
        = [Error ''unable to validate the cache'', ErrorObj StoreError]"
    by (simp add: model_defs)
  have t: "total_bytes (items world_keys_fail) + byteLength ?d = 12000000"
    by (simp add: model_defs)
  have ks: "map fst (map_set ''c.onnx'' ?d (items world_keys_fail))
      = [''a.onnx'', ''b.onnx'', ''c.onnx'']"
    by (simp add: model_defs)
  have b: "cacheSize ?s = 10000000" by (simp add: model_defs)
  note E = enforcer_read_error[OF f, where this = ?s and d = ?d and body = ?d and path = "''c.onnx''"]
  have i: "items (validateCache ?s ?d world_keys_fail) = items world_keys_fail" using E by blast
  have r: "fst (fetchData ?s ''c.onnx'' world_keys_fail) = Inr ?d" using E pre by blast
  have its: "items (snd (fetchData ?s ''c.onnx'' world_keys_fail))
      = map_set ''c.onnx'' ?d (items world_keys_fail)" using E pre by blast
  have tot: "total_bytes (items (snd (fetchData ?s ''c.onnx'' world_keys_fail)))
      = total_bytes (items world_keys_fail) + byteLength ?d" using E pre fresh by blast
  show ?thesis using f i c r its ks tot t b by simp
qed

section \<open>Resolving a model path\<close>

text \<open>
  Claim C2 (a cache hit short-circuits the fetch). Suppose a first \<open>resolve\<close> of a path
  returned \<open>data\<close> and left it stored under the path in \<open>w1\<close>. In every later world \<open>w2\<close>
  whose store content is still that of \<open>w1\<close> and whose next store operation does not
  reject, a second \<open>resolve\<close> of the same path returns the stored bytes; it changes the
  world by its one \<open>getItem\<close> only, so the count of network transfers stays as it was.
\<close>

theorem cache_hit_no_fetch:
  assumes "resolve this path w = (Inr data, w1)"
    and "map_of (items w1) path = Some data"
    and "items w2 = items w1"
    and "\<not> store_fault w2 (store_ops w2)"
  shows "resolve this path w2 = (Inr data, tick w2)
         \<and> fetches (snd (resolve this path w2)) = fetches w2"
  using assms by (simp add: resolve_def getItem_def)

theorem cache_hit_no_fetch_witness:
  "fst (resolve (Session_new world0) ''a.onnx'' world0) = Inr (replicate 4000000 0)
   \<and> fetches (snd (resolve (Session_new world0) ''a.onnx'' world0)) = 1
   \<and> map_of (items (snd (resolve (Session_new world0) ''a.onnx'' world0))) ''a.onnx''
        = Some (replicate 4000000 0)
   \<and> \<not> store_fault (snd (resolve (Session_new world0) ''a.onnx'' world0))
          (store_ops (snd (resolve (Session_new world0) ''a.onnx'' world0)))
   \<and> fst (resolve (Session_new world0) ''a.onnx''
            (snd (resolve (Session_new world0) ''a.onnx'' world0))) = Inr (replicate 4000000 0)
   \<and> fetches (snd (resolve (Session_new world0) ''a.onnx''
            (snd (resolve (Session_new world0) ''a.onnx'' world0)))) = 1"
proof -
  let ?s = "Session_new world0"
  let ?w1 = "snd (resolve ?s ''a.onnx'' world0)"
  have r: "fst (resolve ?s ''a.onnx'' world0) = Inr (replicate 4000000 0)"
    by (simp add: model_defs)
  then have first: "resolve ?s ''a.onnx'' world0 = (Inr (replicate 4000000 0), ?w1)"
    by (metis prod.collapse)
  have f1: "fetches ?w1 = 1" by (simp add: model_defs)
  have stored: "map_of (items ?w1) ''a.onnx'' = Some (replicate 4000000 0)"
    by (simp add: model_defs)
  have ok: "\<not> store_fault ?w1 (store_ops ?w1)" by (simp add: model_defs)
  have same: "items ?w1 = items ?w1" by simp
  show ?thesis using cache_hit_no_fetch[OF first stored same ok] r f1 stored ok by simp
qed

text \<open>
  Claim C5 (recovery from a failing cache read). When the \<open>getItem\<close> of \<open>resolve\<close> rejects,
  \<open>resolve\<close> logs the error, performs exactly one network transfer, and its result is the
  result of that transfer and its decoding: the fetched bytes when the transfer and the
  decoding succeed. The store error never reaches the caller.
\<close>

theorem store_error_recovery:
  assumes "store_fault w (store_ops w)"
  shows "fst (resolve this path w) =
           (case network w (fetches w) path of
              None \<Rightarrow> Inl NetworkError | Some body \<Rightarrow> decode path w body)
         \<and> fst (resolve this path w) \<noteq> Inl StoreError
         \<and> fetches (snd (resolve this path w)) = Suc (fetches w)
         \<and> (\<exists>rest. console (snd (resolve this path w)) =
               console w @ [Error ''unable to load the data from cache'', ErrorObj StoreError] @ rest)"
proof -
  let ?w1 = "(tick w)\<lparr>console := console (tick w)
                @ [Error ''unable to load the data from cache'', ErrorObj StoreError]\<rparr>"
  have r: "resolve this path w = fetchData this path ?w1"
    using assms by (simp add: resolve_def getItem_def catch_fetch_def)
  have a: "fst (resolve this path w) =
           (case network w (fetches w) path of
              None \<Rightarrow> Inl NetworkError | Some body \<Rightarrow> decode path w body)"
    unfolding r fetchData_result by (simp add: decode_def split: option.splits)
  have b: "fst (resolve this path w) \<noteq> Inl StoreError"
    unfolding a using decode_not_store_error by (simp split: option.splits)
  have c: "fetches (snd (resolve this path w)) = Suc (fetches w)"
    unfolding r using fetchData_frame[of this path ?w1] by simp
  have d: "\<exists>rest. console (snd (resolve this path w)) =
               console w @ [Error ''unable to load the data from cache'', ErrorObj StoreError] @ rest"
    unfolding r using fetchData_frame[of this path ?w1] by auto
  show ?thesis using a b c d by blast
qed

theorem store_error_recovery_witness:
  "store_fault world_get_fail (store_ops world_get_fail)
   \<and> fst (getItem ''a.onnx'' world_get_fail) = Inl StoreError
   \<and> fst (resolve (Session_new world_get_fail) ''a.onnx'' world_get_fail)
        = Inr (replicate 4000000 0)
   \<and> fst (resolve (Session_new world_get_fail) ''a.onnx'' world_get_fail) \<noteq> Inl StoreError
   \<and> fetches (snd (resolve (Session_new world_get_fail) ''a.onnx'' world_get_fail))
        = Suc (fetches world_get_fail)
   \<and> console (snd (resolve (Session_new world_get_fail) ''a.onnx'' world_get_fail))
        = [Error ''unable to load the data from cache'', ErrorObj StoreError]"
proof -
  let ?s = "Session_new world_get_fail"
  have f: "store_fault world_get_fail (store_ops world_get_fail)" by (simp add: model_defs)
  have g: "fst (getItem ''a.onnx'' world_get_fail) = Inl StoreError" by (simp add: model_defs)
  have n: "(case network world_get_fail (fetches world_get_fail) ''a.onnx'' of
              None \<Rightarrow> Inl NetworkError | Some body \<Rightarrow> decode ''a.onnx'' world_get_fail body)
           = Inr (replicate 4000000 0)"
    by (simp add: model_defs)
  have c: "console (snd (resolve ?s ''a.onnx'' world_get_fail))
        = [Error ''unable to load the data from cache'', ErrorObj StoreError]"
    by (simp add: model_defs)
  show ?thesis using store_error_recovery[OF f, of ?s "''a.onnx''"] f g n c by simp
qed

text \<open>
  Claim C8. \<open>fetchData\<close> inflates the payload exactly when the piece after the last dot
  of the path is \<open>gz\<close> (\<open>extension_gz_iff\<close>, \<open>fetchData_result\<close>), and a failing
  \<open>pako.inflate\<close> is returned as \<open>DecodeError\<close>. For a path that contains no dot the
  piece is the whole path: the path \<open>gz\<close> does not end in \<open>.gz\<close>, yet its payload of 4 MB
  comes back inflated to 8 MB.
\<close>

theorem fetchData_inflates_path_gz:
  "extension ''gz'' = Some ''gz''
   \<and> network world0 (fetches world0) ''gz'' = Some (replicate 4000000 0)
   \<and> fst (fetchData (Session_new world0) ''gz'' world0)
        = Inr (replicate 4000000 0 @ replicate 4000000 0)
   \<and> fst (fetchData (Session_new world0) ''gz'' world0) \<noteq> Inr (replicate 4000000 0)"
  by (simp add: model_defs)

section \<open>The not-initialized guard\<close>

lemma init_result:
  "init this path w = (r, this', w') \<Longrightarrow>
     (r = Inr () \<and> (\<exists>s. this' = this\<lparr>ortSession := Some s\<rparr>)) \<or> ((\<exists>e. r = Inl e) \<and> this' = this)"
  by (auto simp: init_def split: prod.splits sum.splits option.splits)

text \<open>
  Claim C4. On a session whose runnable handle is absent, which is the state of a freshly
  constructed session and the state a failing \<open>init\<close> leaves such a session in, \<open>run\<close>,
  \<open>inputNames\<close> and \<open>outputNames\<close> fail with the not-initialized error. On a session that
  holds a handle, which is the state after every successful \<open>init\<close>, the three calls do not
  raise the not-initialized error: \<open>run\<close> is the handle's \<open>run\<close>, and the name lists are the
  handle's.
\<close>

theorem guard_not_initialized:
  "(ortSession this = None \<longrightarrow>
      run this input = Inl NotInitialized \<and> inputNames this = Inl NotInitialized
      \<and> outputNames this = Inl NotInitialized)
   \<and> (\<forall>s. ortSession this = Some s \<longrightarrow>
         run this input = (case ort_run s input of None \<Rightarrow> Inl OrtError | Some out \<Rightarrow> Inr out)
         \<and> run this input \<noteq> Inl NotInitialized
         \<and> inputNames this = Inr (ort_inputNames s)
         \<and> outputNames this = Inr (ort_outputNames s))
   \<and> ortSession (Session_new w) = None
   \<and> (\<forall>this' w'. init this path w = (Inr (), this', w') \<longrightarrow> ortSession this' \<noteq> None)
   \<and> (\<forall>e this' w'. ortSession this = None \<and> init this path w = (Inl e, this', w')
         \<longrightarrow> ortSession this' = None)"
proof -
  have a: "ortSession this = None \<longrightarrow>
      run this input = Inl NotInitialized \<and> inputNames this = Inl NotInitialized
      \<and> outputNames this = Inl NotInitialized"
    by (simp add: run_def inputNames_def outputNames_def)
  have b: "\<forall>s. ortSession this = Some s \<longrightarrow>
         run this input = (case ort_run s input of None \<Rightarrow> Inl OrtError | Some out \<Rightarrow> Inr out)
         \<and> run this input \<noteq> Inl NotInitialized
         \<and> inputNames this = Inr (ort_inputNames s)
         \<and> outputNames this = Inr (ort_outputNames s)"
    by (simp add: run_def inputNames_def outputNames_def split: option.splits)
  have c: "ortSession (Session_new w) = None" by (simp add: Session_new_def)
  have d: "\<forall>this' w'. init this path w = (Inr (), this', w') \<longrightarrow> ortSession this' \<noteq> None"
    using init_result[of this path w] by fastforce
  have e: "\<forall>e this' w'. ortSession this = None \<and> init this path w = (Inl e, this', w')
         \<longrightarrow> ortSession this' = None"
    using init_result[of this path w] by fastforce
  show ?thesis using a b c d e by blast
qed

theorem guard_not_initialized_witness:
  "ortSession (Session_new world0) = None
   \<and> run (Session_new world0) [] = Inl NotInitialized
   \<and> inputNames (Session_new world0) = Inl NotInitialized
   \<and> outputNames (Session_new world0) = Inl NotInitialized
   \<and> fst (init (Session_new world0) ''nowhere'' world0) = Inl NetworkError
   \<and> ortSession (fst (snd (init (Session_new world0) ''nowhere'' world0))) = None
   \<and> fst (init (Session_new world0) ''a.onnx'' world0) = Inr ()
   \<and> ortSession (fst (snd (init (Session_new world0) ''a.onnx'' world0))) = Some handle0
   \<and> run (fst (snd (init (Session_new world0) ''a.onnx'' world0))) [] = Inr []
   \<and> inputNames (fst (snd (init (Session_new world0) ''a.onnx'' world0))) = Inr [''input'']
   \<and> outputNames (fst (snd (init (Session_new world0) ''a.onnx'' world0))) = Inr [''output'']"
proof -
  have bad: "fst (init (Session_new world0) ''nowhere'' world0) = Inl NetworkError"
    by (simp add: model_defs)
  have good: "fst (init (Session_new world0) ''a.onnx'' world0) = Inr ()"
    "ortSession (fst (snd (init (Session_new world0) ''a.onnx'' world0))) = Some handle0"
    by (simp_all add: model_defs)
  have run0: "ort_run handle0 [] = Some []" by (simp add: handle0_def)
  have names: "ort_inputNames handle0 = [''input'']" "ort_outputNames handle0 = [''output'']"
    by (simp_all add: handle0_def)
  let ?fresh = "Session_new world0"
  let ?ready = "fst (snd (init (Session_new world0) ''a.onnx'' world0))"
  note A = guard_not_initialized [of ?fresh "[]" world0 "''nowhere''"]
  note B = guard_not_initialized [of ?ready "[]" world0 "''a.onnx''"]
  have fresh: "ortSession ?fresh = None" using A by blast
  have calls: "run ?fresh [] = Inl NotInitialized \<and> inputNames ?fresh = Inl NotInitialized
      \<and> outputNames ?fresh = Inl NotInitialized"
    using A fresh by blast
  have "init ?fresh ''nowhere'' world0
      = (Inl NetworkError, fst (snd (init ?fresh ''nowhere'' world0)),
         snd (snd (init ?fresh ''nowhere'' world0)))"
    using bad by (metis prod.collapse)
  then have failed: "ortSession (fst (snd (init ?fresh ''nowhere'' world0))) = None"
    using A fresh by blast
  note C = guard_not_initialized [of ?fresh "[]" world0 "''a.onnx''"]
  have "init ?fresh ''a.onnx'' world0 = (Inr (), ?ready, snd (snd (init ?fresh ''a.onnx'' world0)))"
    using good(1) by (metis prod.collapse)
  then have held: "ortSession ?ready \<noteq> None" using C by blast
  have "run ?ready [] = (case ort_run handle0 [] of None \<Rightarrow> Inl OrtError | Some out \<Rightarrow> Inr out)
      \<and> inputNames ?ready = Inr (ort_inputNames handle0)
      \<and> outputNames ?ready = Inr (ort_outputNames handle0)"
    using B good(2) by blast
  then have ready: "run ?ready [] = Inr [] \<and> inputNames ?ready = Inr [''input'']
      \<and> outputNames ?ready = Inr [''output'']"
    using run0 names by simp
  show ?thesis using fresh calls bad failed good held ready by simp
qed

section \<open>A failing \<open>init\<close>\<close>

text \<open>
  Claim C7, as amended. A failing \<open>init\<close> leaves the session object exactly as it was. A
  session without a handle stays without one and \<open>init\<close> can be called again; a session
  that already held a handle keeps it.
\<close>

theorem init_failure_keeps_session:
  assumes "init this path w = (Inl e, this', w')"
  shows "this' = this \<and> ortSession this' = ortSession this"
  using init_result[OF assms] by auto

theorem init_failure_keeps_session_witness:
  "fst (init (Session_new world0) ''nowhere'' world0) = Inl NetworkError
   \<and> fst (snd (init (Session_new world0) ''nowhere'' world0)) = Session_new world0
   \<and> ortSession (Session_new world0) = None
   \<and> ortSession (fst (snd (init (Session_new world0) ''nowhere'' world0))) = None
   \<and> fst (init (fst (snd (init (Session_new world0) ''nowhere'' world0))) ''a.onnx''
            (snd (snd (init (Session_new world0) ''nowhere'' world0)))) = Inr ()"
proof -
  let ?s = "Session_new world0"
  have bad: "fst (init ?s ''nowhere'' world0) = Inl NetworkError" by (simp add: model_defs)
  then have run: "init ?s ''nowhere'' world0
      = (Inl NetworkError, fst (snd (init ?s ''nowhere'' world0)), snd (snd (init ?s ''nowhere'' world0)))"
    by (metis prod.collapse)
  have none: "ortSession ?s = None" by (simp add: model_defs)
  have retry: "fst (init ?s ''a.onnx'' (snd (snd (init ?s ''nowhere'' world0)))) = Inr ()"
    by (simp add: model_defs)
  show ?thesis using init_failure_keeps_session[OF run] bad none retry by simp
qed

text \<open>
  Claim C7 as stated fails for a session that is already \<open>Ready\<close>: after a successful
  \<open>init\<close> of \<open>a.onnx\<close>, a second \<open>init\<close> whose network transfer fails leaves the session
  holding the handle of the first.
\<close>

theorem init_failure_ready_counterexample:
  "fst (init (Session_new world0) ''a.onnx'' world0) = Inr ()
   \<and> fst (init (fst (snd (init (Session_new world0) ''a.onnx'' world0))) ''nowhere''
            (snd (snd (init (Session_new world0) ''a.onnx'' world0)))) = Inl NetworkError
   \<and> ortSession (fst (snd (init (fst (snd (init (Session_new world0) ''a.onnx'' world0))) ''nowhere''
            (snd (snd (init (Session_new world0) ''a.onnx'' world0)))))) = Some handle0
   \<and> ortSession (fst (snd (init (fst (snd (init (Session_new world0) ''a.onnx'' world0))) ''nowhere''
            (snd (snd (init (Session_new world0) ''a.onnx'' world0)))))) \<noteq> None"
  by (simp add: model_defs)

end
